theory Spec2Isabelle
  imports Main "HOL-Library.Word"
begin

unbundle bit_operations_syntax

section \<open>Bytes and big-endian integers\<close>

text \<open>
  A Go \<open>byte\<close> is an 8-bit word; a \<open>[]byte\<close> is a list of them. \<open>be_int\<close> is the
  unsigned big-endian reading of a byte slice (what \<open>big.Int.SetBytes\<close> computes).
\<close>

type_synonym byte = "8 word"

fun be_int :: "byte list \<Rightarrow> int" where
  "be_int [] = 0"
| "be_int (b # bs) = uint b * 256 ^ length bs + be_int bs"

text \<open>
  \<open>bitAt bs t\<close>: the byte sequence \<open>bs\<close>, read big-endian, has a 1-bit at bit position
  \<open>t\<close> (position 0 is the least significant bit of the last byte).
\<close>

definition bitAt :: "byte list \<Rightarrow> nat \<Rightarrow> bool" where
  "bitAt bs t = (t < 8 * length bs \<and> bit (bs ! (length bs - 1 - t div 8)) (t mod 8))"

text \<open>The sum of \<open>2 ^ t\<close> over the bit positions \<open>t\<close> at which \<open>bs\<close> has a 1-bit.\<close>

definition bitWeight :: "byte list \<Rightarrow> int" where
  "bitWeight bs = (\<Sum>t \<leftarrow> [0..<8 * length bs]. if bitAt bs t then 2 ^ t else 0)"

section \<open>NAF\<close>

text \<open>
  The state of the two nested loops of \<open>NAF\<close>: the carry flag and the two output
  buffers, each one byte longer than the input.
\<close>

record naf_state =
  carry :: bool
  retPos :: "byte list"
  retNeg :: "byte list"

text \<open>
  One pass of the inner loop body at byte index \<open>i\<close> and bit index \<open>j\<close>. The first
  component is \<open>curByte\<close>, shifted right by one at the end of the pass.
\<close>

definition naf_bit :: "byte list \<Rightarrow> nat \<Rightarrow> nat \<Rightarrow> byte \<times> naf_state \<Rightarrow> byte \<times> naf_state" where
  "naf_bit k i j cs =
     (case cs of (curByte, s) \<Rightarrow>
        let curIsOne = (curByte AND 1 = 1);
            nextIsOne =
              (if j = 7 then (if i = 0 then False else (k ! (i - 1)) AND 1 = 1)
               else curByte AND 2 = 2);
            s' =
              (if carry s then
                 (if curIsOne then s
                  else if nextIsOne then
                    s\<lparr>retNeg := (retNeg s)[i + 1 := retNeg s ! (i + 1) + push_bit j 1]\<rparr>
                  else
                    s\<lparr>carry := False,
                      retPos := (retPos s)[i + 1 := retPos s ! (i + 1) + push_bit j 1]\<rparr>)
               else if curIsOne then
                 (if nextIsOne then
                    s\<lparr>retNeg := (retNeg s)[i + 1 := retNeg s ! (i + 1) + push_bit j 1],
                      carry := True\<rparr>
                  else
                    s\<lparr>retPos := (retPos s)[i + 1 := retPos s ! (i + 1) + push_bit j 1]\<rparr>)
               else s)
        in (drop_bit 1 curByte, s'))"

text \<open>The inner loop, \<open>j\<close> from 0 to 7, for the byte at index \<open>i\<close>.\<close>

definition naf_byte :: "byte list \<Rightarrow> nat \<Rightarrow> naf_state \<Rightarrow> naf_state" where
  "naf_byte k i s = snd (fold (naf_bit k i) [0..<8] (k ! i, s))"

text \<open>
  \<open>NAF\<close>: the outer loop runs \<open>i\<close> from \<open>len(k) - 1\<close> down to 0; a final carry sets the
  extra leading byte of \<open>retPos\<close>, otherwise both buffers lose their leading byte.
\<close>

definition NAF :: "byte list \<Rightarrow> byte list \<times> byte list" where
  "NAF k =
     (let s0 = \<lparr>carry = False,
                retPos = replicate (length k + 1) 0,
                retNeg = replicate (length k + 1) 0\<rparr>;
          s = fold (naf_byte k) (rev [0..<length k]) s0
      in if carry s then ((retPos s)[0 := 1], retNeg s)
         else (drop 1 (retPos s), drop 1 (retNeg s)))"

subsection \<open>The recoding on integers\<close>

text \<open>
  The same recoding read on integers: \<open>K\<close> is the input, \<open>t\<close> the bit position being
  recoded, \<open>P\<close> and \<open>N\<close> the values of the positive and negative digit masks built so
  far. It is used to state the loop invariant of \<open>NAF\<close>.
\<close>

definition naf_digit :: "int \<Rightarrow> nat \<Rightarrow> bool \<times> int \<times> int \<Rightarrow> bool \<times> int \<times> int" where
  "naf_digit K t cpn =
     (case cpn of (c, P, N) \<Rightarrow>
        if c then
          (if bit K t then (c, P, N)
           else if bit K (Suc t) then (c, P, N + 2 ^ t)
           else (False, P + 2 ^ t, N))
        else if bit K t then
          (if bit K (Suc t) then (True, P, N + 2 ^ t) else (c, P + 2 ^ t, N))
        else (c, P, N))"

definition naf_inv :: "int \<Rightarrow> nat \<Rightarrow> bool \<times> int \<times> int \<Rightarrow> bool" where
  "naf_inv K t cpn =
     (case cpn of (c, P, N) \<Rightarrow>
        0 \<le> P \<and> P < 2 ^ t \<and> 0 \<le> N \<and> N < 2 ^ t \<and>
        P - N + (if c then 2 ^ t else 0) = K mod 2 ^ t \<and>
        (\<forall>m. \<not> (bit P m \<and> bit N m)) \<and>
        (\<forall>m. \<not> ((bit P m \<or> bit N m) \<and> (bit P (Suc m) \<or> bit N (Suc m)))) \<and>
        (\<forall>m. Suc m = t \<and> (bit P m \<or> bit N m) \<longrightarrow> c = bit K t))"

definition naf_abs :: "naf_state \<Rightarrow> bool \<times> int \<times> int" where
  "naf_abs s = (carry s, be_int (retPos s), be_int (retNeg s))"

definition naf_rel :: "byte list \<Rightarrow> nat \<Rightarrow> naf_state \<Rightarrow> bool" where
  "naf_rel k t s =
     (length (retPos s) = length k + 1 \<and> length (retNeg s) = length k + 1 \<and>
      naf_inv (be_int k) t (naf_abs s))"

section \<open>Arbitrary-precision integers\<close>

text \<open>
  A Go \<open>*big.Int\<close> is an \<open>int\<close>. \<open>SetBytes\<close> is \<open>be_int\<close>; \<open>Bytes\<close> returns the
  big-endian bytes of the absolute value with no leading zero byte (the empty slice for
  0); \<open>Sign\<close> is \<open>sgn\<close>.
\<close>

function abs_bytes :: "int \<Rightarrow> byte list" where
  "abs_bytes n = (if n \<le> 0 then [] else abs_bytes (n div 256) @ [word_of_int n])"
  by pat_completeness auto
termination
  by (relation "measure nat") auto

definition bigBytes :: "int \<Rightarrow> byte list" where
  "bigBytes x = abs_bytes \<bar>x\<bar>"

definition bigSign :: "int \<Rightarrow> int" where
  "bigSign x = sgn x"

section \<open>Curve parameters\<close>

text \<open>The constants \<open>initS256\<close> stores in \<open>secp256k1\<close>.\<close>

definition secp256k1_P :: int where
  "secp256k1_P = 0xFFFFFFFFFFFFFFFFFFFFFFFFFFFFFFFFFFFFFFFFFFFFFFFFFFFFFFFEFFFFFC2F"

definition secp256k1_N :: int where
  "secp256k1_N = 0xFFFFFFFFFFFFFFFFFFFFFFFFFFFFFFFEBAAEDCE6AF48A03BBFD25E8CD0364141"

definition secp256k1_B :: int where
  "secp256k1_B = 0x0000000000000000000000000000000000000000000000000000000000000007"

definition secp256k1_Gx :: int where
  "secp256k1_Gx = 0x79BE667EF9DCBBAC55A06295CE870B07029BFCDB2DCE28D959F2815B16F81798"

definition secp256k1_Gy :: int where
  "secp256k1_Gy = 0x483ADA7726A3C4655DA4FBFC0E1108A8FD17B448A68554199C47D08FFB10D4B8"

definition secp256k1_BitSize :: nat where
  "secp256k1_BitSize = 256"

definition secp256k1_byteSize :: nat where
  "secp256k1_byteSize = secp256k1_BitSize div 8"

definition secp256k1_lambda :: int where
  "secp256k1_lambda = 0x5363AD4CC05C30E0A5261C028812645A122E22EA20816678DF02967C1B23BD72"

definition secp256k1_beta :: int where
  "secp256k1_beta = 0x7AE96A2B657C07106E64479EAC3434E99CF0497512F58995C1396C28719501EE"

definition secp256k1_a1 :: int where
  "secp256k1_a1 = 0x3086D221A7D46BCDE86C90E49284EB15"

definition secp256k1_b1 :: int where
  "secp256k1_b1 = - 0xE4437ED6010E88286F547FA90ABFE4C3"

definition secp256k1_a2 :: int where
  "secp256k1_a2 = 0x114CA50F7A8E2F3F657C1108D9D44CFD8"

definition secp256k1_b2 :: int where
  "secp256k1_b2 = 0x3086D221A7D46BCDE86C90E49284EB15"

section \<open>Field elements\<close>

text \<open>
  Modelled from the spec: the type \<open>fieldVal\<close> and its methods are not among the source
  files. The spec (sections 3 and 6) describes a residue modulo the prime \<open>P\<close> kept in a
  deferred-reduction form with a tracked magnitude, with add, negate, multiply, square,
  inverse, construction from a small integer and from a big-endian byte slice,
  serialization to a fixed-width big-endian form, and an equality that is defined on
  normalized operands only.

  A field element is modelled by the integer its limbs stand for, a representative of the
  residue that is not reduced until \<open>Normalize\<close>: addition adds the representatives,
  negation with magnitude \<open>m\<close> subtracts from \<open>(m + 1) * P\<close>, multiplication and squaring
  return the reduced product, \<open>Normalize\<close> reduces into \<open>[0, P)\<close>, and \<open>Equals\<close>
  compares representatives, which is why the callers normalize first. \<open>fvIsZero\<close> is
  the spec's "= 0" on a field element: the residue is zero. The Go methods update their
  receiver and return it for chaining; here each returns the new value.
\<close>

type_synonym fieldVal = int

text \<open>\<open>new(fieldVal)\<close>: the zero value.\<close>

definition fvNew :: fieldVal where
  "fvNew = 0"

definition fvSet :: "fieldVal \<Rightarrow> fieldVal" where
  "fvSet v = v"

definition fvSetInt :: "nat \<Rightarrow> fieldVal" where
  "fvSetInt n = int n"

definition fvSetByteSlice :: "byte list \<Rightarrow> fieldVal" where
  "fvSetByteSlice b = be_int b"

definition fvNormalize :: "fieldVal \<Rightarrow> fieldVal" where
  "fvNormalize f = f mod secp256k1_P"

definition fvEquals :: "fieldVal \<Rightarrow> fieldVal \<Rightarrow> bool" where
  "fvEquals f v = (f = v)"

definition fvIsZero :: "fieldVal \<Rightarrow> bool" where
  "fvIsZero f = (fvNormalize f = 0)"

definition fvNegateVal :: "fieldVal \<Rightarrow> nat \<Rightarrow> fieldVal" where
  "fvNegateVal v magnitude = (int magnitude + 1) * secp256k1_P - v"

definition fvNegate :: "fieldVal \<Rightarrow> nat \<Rightarrow> fieldVal" where
  "fvNegate f magnitude = fvNegateVal f magnitude"

definition fvAdd2 :: "fieldVal \<Rightarrow> fieldVal \<Rightarrow> fieldVal" where
  "fvAdd2 v1 v2 = v1 + v2"

definition fvAdd :: "fieldVal \<Rightarrow> fieldVal \<Rightarrow> fieldVal" where
  "fvAdd f v = fvAdd2 f v"

definition fvAddInt :: "fieldVal \<Rightarrow> nat \<Rightarrow> fieldVal" where
  "fvAddInt f n = f + int n"

definition fvMul2 :: "fieldVal \<Rightarrow> fieldVal \<Rightarrow> fieldVal" where
  "fvMul2 v1 v2 = (v1 * v2) mod secp256k1_P"

definition fvMul :: "fieldVal \<Rightarrow> fieldVal \<Rightarrow> fieldVal" where
  "fvMul f v = fvMul2 f v"

definition fvSquareVal :: "fieldVal \<Rightarrow> fieldVal" where
  "fvSquareVal v = fvMul2 v v"

text \<open>
  Modelled from the spec: the multiplicative inverse modulo \<open>P\<close>, computed as the power
  \<open>P - 2\<close> by square-and-multiply; the inverse of a multiple of \<open>P\<close> is 0.
\<close>

function fvPow :: "fieldVal \<Rightarrow> int \<Rightarrow> fieldVal" where
  "fvPow v e =
     (if e \<le> 0 then fvSetInt 1
      else if even e then fvPow (fvSquareVal v) (e div 2)
      else fvMul2 v (fvPow (fvSquareVal v) (e div 2)))"
  by pat_completeness auto
termination
  by (relation "measure (\<lambda>(v, e). nat e)") auto

definition fvInverse :: "fieldVal \<Rightarrow> fieldVal" where
  "fvInverse f = fvPow f (secp256k1_P - 2)"

text \<open>
  Modelled from the spec: serialization to the fixed-width (32 bytes) big-endian form,
  \<open>be_bytes 32\<close> of the value.
\<close>

fun be_bytes :: "nat \<Rightarrow> int \<Rightarrow> byte list" where
  "be_bytes 0 x = []"
| "be_bytes (Suc n) x = be_bytes n (x div 256) @ [word_of_int x]"

definition fvBytes :: "fieldVal \<Rightarrow> byte list" where
  "fvBytes f = be_bytes 32 f"

section \<open>Jacobian point arithmetic\<close>

type_synonym jacobian = "fieldVal \<times> fieldVal \<times> fieldVal"

text \<open>
  Modelled from the spec: \<open>doubleJacobian\<close> and \<open>addJacobian\<close> are not among the source
  files. The spec (section 4.2) names "the standard doubling formula specialized for
  a = 0" and "the general Jacobian addition formula" without giving them, so the two
  formulas are parameters of the model; what the spec does state, the degenerate cases
  and the dispatch, is written out below. Every theorem holds for any choice of the two
  formulas.
\<close>

record jacobian_formulas =
  doubleFormula :: "fieldVal \<Rightarrow> fieldVal \<Rightarrow> fieldVal \<Rightarrow> jacobian"
  addFormula :: "fieldVal \<Rightarrow> fieldVal \<Rightarrow> fieldVal \<Rightarrow> fieldVal \<Rightarrow> fieldVal \<Rightarrow> fieldVal \<Rightarrow> jacobian"

text \<open>
  One choice of the two formulas, the textbook ones on residues, for running the model
  on concrete inputs.
\<close>

definition textbook_double :: "fieldVal \<Rightarrow> fieldVal \<Rightarrow> fieldVal \<Rightarrow> jacobian" where
  "textbook_double x y z =
     (let x3 = (9 * x ^ 4 - 8 * x * y ^ 2) mod secp256k1_P;
          y3 = (3 * x ^ 2 * (4 * x * y ^ 2 - x3) - 8 * y ^ 4) mod secp256k1_P;
          z3 = (2 * y * z) mod secp256k1_P
      in (x3, y3, z3))"

definition textbook_add ::
  "fieldVal \<Rightarrow> fieldVal \<Rightarrow> fieldVal \<Rightarrow> fieldVal \<Rightarrow> fieldVal \<Rightarrow> fieldVal \<Rightarrow> jacobian" where
  "textbook_add x1 y1 z1 x2 y2 z2 =
     (let u1 = x1 * z2 ^ 2; u2 = x2 * z1 ^ 2;
          s1 = y1 * z2 ^ 3; s2 = y2 * z1 ^ 3;
          h = u2 - u1; r = s2 - s1;
          x3 = (r ^ 2 - h ^ 3 - 2 * u1 * h ^ 2) mod secp256k1_P;
          y3 = (r * (u1 * h ^ 2 - x3) - s1 * h ^ 3) mod secp256k1_P;
          z3 = (h * z1 * z2) mod secp256k1_P
      in (x3, y3, z3))"

definition textbook_formulas :: jacobian_formulas where
  "textbook_formulas = \<lparr>doubleFormula = textbook_double, addFormula = textbook_add\<rparr>"

text \<open>
  Modelled from the spec: \<open>doubleJacobian\<close>. "Degenerate case: if Y = 0 (a 2-torsion
  point), the result is the point at infinity (Z' = 0)", taken as the all-zero triple
  that the source files use for the point at infinity; otherwise the doubling formula.
\<close>

definition doubleJacobian :: "jacobian_formulas \<Rightarrow> fieldVal \<Rightarrow> fieldVal \<Rightarrow> fieldVal \<Rightarrow> jacobian" where
  "doubleJacobian F x1 y1 z1 =
     (if fvIsZero y1 then (fvSetInt 0, fvSetInt 0, fvSetInt 0)
      else doubleFormula F x1 y1 z1)"

text \<open>
  \<open>addZ1EqualsZ2\<close>, from the source. The four \<open>Normalize\<close> calls on the inputs change
  the caller's representatives only, not their residues; the model returns the output
  triple \<open>(x3, y3, z3)\<close>. The output pointers may be the input pointers, as at the call
  sites: every input is read before the output of the same name is written. The
  temporaries \<open>e\<close> and \<open>f\<close> are updated in place by the chained \<open>Add\<close> and \<open>Mul\<close>.
\<close>

definition addZ1EqualsZ2 ::
  "jacobian_formulas \<Rightarrow> fieldVal \<Rightarrow> fieldVal \<Rightarrow> fieldVal \<Rightarrow> fieldVal \<Rightarrow> fieldVal \<Rightarrow> jacobian" where
  "addZ1EqualsZ2 F x1 y1 z1 x2 y2 =
     (let x1 = fvNormalize x1;
          y1 = fvNormalize y1;
          x2 = fvNormalize x2;
          y2 = fvNormalize y2
      in if fvEquals x1 x2 then
           (if fvEquals y1 y2 then doubleJacobian F x1 y1 z1
            else (fvSetInt 0, fvSetInt 0, fvSetInt 0))
         else
           (let negX1 = fvNegate (fvSet x1) 1;
                negY1 = fvNegate (fvSet y1) 1;
                a = fvAdd (fvSet negX1) x2;
                b = fvSquareVal a;
                c = fvAdd (fvSet negY1) y2;
                d = fvSquareVal c;
                e = fvMul2 x1 b;
                negE = fvNegate (fvSet e) 1;
                f = fvMul2 x2 b;
                x3 = fvAdd (fvNegate (fvAdd2 e f) 3) d;
                negX3 = fvNormalize (fvNegate (fvSet x3) 5);
                f = fvAdd f negE;
                y3 = fvNegate (fvMul (fvSet y1) f) 3;
                e = fvMul (fvAdd e negX3) c;
                y3 = fvAdd y3 e;
                z3 = fvMul2 z1 a;
                x3 = fvNormalize x3;
                y3 = fvNormalize y3
            in (x3, y3, z3)))"

text \<open>
  Modelled from the spec: \<open>addJacobian\<close>. "If either operand has Z = 0, the result equals
  the other operand. If the two points have equal Z, delegate to the faster equal-Z
  path. Otherwise apply the general Jacobian addition formula"; in that last path equal
  affine X with equal affine Y is doubling, and equal affine X with different Y is the
  point at infinity.
\<close>

definition addGeneric ::
  "jacobian_formulas \<Rightarrow> fieldVal \<Rightarrow> fieldVal \<Rightarrow> fieldVal \<Rightarrow> fieldVal \<Rightarrow> fieldVal \<Rightarrow> fieldVal \<Rightarrow> jacobian" where
  "addGeneric F x1 y1 z1 x2 y2 z2 =
     (let z1z1 = fvSquareVal z1;
          z2z2 = fvSquareVal z2;
          u1 = fvNormalize (fvMul2 x1 z2z2);
          u2 = fvNormalize (fvMul2 x2 z1z1);
          s1 = fvNormalize (fvMul2 y1 (fvMul2 z2z2 z2));
          s2 = fvNormalize (fvMul2 y2 (fvMul2 z1z1 z1))
      in if fvEquals u1 u2 then
           (if fvEquals s1 s2 then doubleJacobian F x1 y1 z1
            else (fvSetInt 0, fvSetInt 0, fvSetInt 0))
         else addFormula F x1 y1 z1 x2 y2 z2)"

definition addJacobian ::
  "jacobian_formulas \<Rightarrow> fieldVal \<Rightarrow> fieldVal \<Rightarrow> fieldVal \<Rightarrow> fieldVal \<Rightarrow> fieldVal \<Rightarrow> fieldVal \<Rightarrow> jacobian" where
  "addJacobian F x1 y1 z1 x2 y2 z2 =
     (if fvIsZero z1 then (fvSet x2, fvSet y2, fvSet z2)
      else if fvIsZero z2 then (fvSet x1, fvSet y1, fvSet z1)
      else if fvEquals (fvNormalize z1) (fvNormalize z2) then addZ1EqualsZ2 F x1 y1 z1 x2 y2
      else addGeneric F x1 y1 z1 x2 y2 z2)"

section \<open>Conversion between affine integers and field elements\<close>

text \<open>
  \<open>bigAffineToField\<close>, from the source. It reads its arguments through \<open>Bytes\<close> only and
  builds two new field values. The first component of the result is the pair of
  arguments as the call leaves them, the second the returned pair.
\<close>

definition bigAffineToField :: "int \<Rightarrow> int \<Rightarrow> (int \<times> int) \<times> (fieldVal \<times> fieldVal)" where
  "bigAffineToField x y =
     (let x3 = fvSetByteSlice (bigBytes x);
          y3 = fvSetByteSlice (bigBytes y)
      in ((x, y), (x3, y3)))"

text \<open>
  \<open>fieldJacobianToBigAffine\<close>, from the source. It works on the field values its three
  pointer arguments point to: \<open>x.Mul\<close>, \<open>y.Mul\<close>, \<open>z.SetInt(1)\<close> and the two
  \<open>Normalize\<close> calls write them. The first component of the result is the triple
  \<open>(x, y, z)\<close> as the call leaves it, the second the returned pair of integers.
  The three arguments are distinct field values at every call site.
\<close>

definition fieldJacobianToBigAffine ::
  "fieldVal \<Rightarrow> fieldVal \<Rightarrow> fieldVal \<Rightarrow> jacobian \<times> (int \<times> int)" where
  "fieldJacobianToBigAffine x y z =
     (let zInv = fvInverse (fvSet z);
          tempZ = fvSquareVal zInv;
          x = fvMul x tempZ;
          tempZ = fvMul tempZ zInv;
          y = fvMul y tempZ;
          z = fvSetInt 1;
          x = fvNormalize x;
          y = fvNormalize y;
          x3 = be_int (fvBytes x);
          y3 = be_int (fvBytes y)
      in ((x, y, z), (x3, y3)))"

section \<open>The public curve operations\<close>

definition Add :: "jacobian_formulas \<Rightarrow> int \<Rightarrow> int \<Rightarrow> int \<Rightarrow> int \<Rightarrow> int \<times> int" where
  "Add F x1 y1 x2 y2 =
     (if bigSign x1 = 0 \<and> bigSign y1 = 0 then (x2, y2)
      else if bigSign x2 = 0 \<and> bigSign y2 = 0 then (x1, y1)
      else
        (let (fx1, fy1) = snd (bigAffineToField x1 y1);
             (fx2, fy2) = snd (bigAffineToField x2 y2);
             fOne = fvSetInt 1;
             (fx3, fy3, fz3) = addJacobian F fx1 fy1 fOne fx2 fy2 fOne
         in snd (fieldJacobianToBigAffine fx3 fy3 fz3)))"

definition IsOnCurve :: "int \<Rightarrow> int \<Rightarrow> bool" where
  "IsOnCurve x y =
     (let (fx, fy) = snd (bigAffineToField x y);
          y2 = fvNormalize (fvSquareVal fy);
          result = fvNormalize (fvAddInt (fvMul (fvSquareVal fx) fx) 7)
      in fvEquals y2 result)"

section \<open>Scalar reduction and splitting\<close>

text \<open>
  Modelled from the spec: \<open>moduloReduce\<close> is not among the source files. The spec
  (section 4.5) says it "reduces an arbitrary-length input scalar into the range [0, N)";
  the result is handed on as the bytes of that integer.
\<close>

definition moduloReduce :: "byte list \<Rightarrow> byte list" where
  "moduloReduce k = bigBytes (be_int k mod secp256k1_N)"

text \<open>
  Modelled from the spec: \<open>splitK\<close> is not among the source files. The spec (section
  4.5): \<open>c1 = round(b2 * k / N)\<close>, \<open>c2 = round(- b1 * k / N)\<close> with rounding to the
  nearest integer, \<open>k1 = k - c1 * a1 - c2 * a2\<close>, \<open>k2 = - (c1 * b1 + c2 * b2)\<close>; the
  magnitudes are returned as bytes and the signs separately.
\<close>

definition roundDiv :: "int \<Rightarrow> int \<Rightarrow> int" where
  "roundDiv a n = (2 * a + n) div (2 * n)"

definition splitK :: "byte list \<Rightarrow> byte list \<times> byte list \<times> int \<times> int" where
  "splitK k =
     (let bigIntK = be_int k;
          c1 = roundDiv (secp256k1_b2 * bigIntK) secp256k1_N;
          c2 = roundDiv (- secp256k1_b1 * bigIntK) secp256k1_N;
          k1 = bigIntK - c1 * secp256k1_a1 - c2 * secp256k1_a2;
          k2 = - (c1 * secp256k1_b1 + c2 * secp256k1_b2)
      in (bigBytes k1, bigBytes k2, bigSign k1, bigSign k2))"

section \<open>ScalarMult\<close>

text \<open>The points the loop of \<open>ScalarMult\<close> adds, fixed before the loop starts.\<close>

record sm_points =
  p1x :: fieldVal
  p1y :: fieldVal
  p1yNeg :: fieldVal
  p1z :: fieldVal
  p2x :: fieldVal
  p2y :: fieldVal
  p2yNeg :: fieldVal
  p2z :: fieldVal

text \<open>The variables the two nested loops update: the accumulator and the four current bytes.\<close>

record sm_state =
  qx :: fieldVal
  qy :: fieldVal
  qz :: fieldVal
  k1BytePos :: byte
  k1ByteNeg :: byte
  k2BytePos :: byte
  k2ByteNeg :: byte

text \<open>
  One pass of the inner loop body: double the accumulator, add or subtract each of the
  two points according to the top bit of the current bytes, shift the bytes left.
\<close>

definition sm_bit :: "jacobian_formulas \<Rightarrow> sm_points \<Rightarrow> sm_state \<Rightarrow> sm_state" where
  "sm_bit F pt s =
     (let (x, y, z) = doubleJacobian F (qx s) (qy s) (qz s);
          (x, y, z) =
            (if k1BytePos s AND 0x80 = 0x80 then
               addJacobian F x y z (p1x pt) (p1y pt) (p1z pt)
             else if k1ByteNeg s AND 0x80 = 0x80 then
               addJacobian F x y z (p1x pt) (p1yNeg pt) (p1z pt)
             else (x, y, z));
          (x, y, z) =
            (if k2BytePos s AND 0x80 = 0x80 then
               addJacobian F x y z (p2x pt) (p2y pt) (p2z pt)
             else if k2ByteNeg s AND 0x80 = 0x80 then
               addJacobian F x y z (p2x pt) (p2yNeg pt) (p2z pt)
             else (x, y, z))
      in \<lparr>qx = x, qy = y, qz = z,
          k1BytePos = push_bit 1 (k1BytePos s),
          k1ByteNeg = push_bit 1 (k1ByteNeg s),
          k2BytePos = push_bit 1 (k2BytePos s),
          k2ByteNeg = push_bit 1 (k2ByteNeg s)\<rparr>)"

text \<open>
  One pass of the outer loop body at index \<open>i\<close>: load the four bytes, the shorter
  encoding padded with zero bytes in front, then run the inner loop eight times.
\<close>

definition sm_byte ::
  "jacobian_formulas \<Rightarrow> sm_points \<Rightarrow> byte list \<Rightarrow> byte list \<Rightarrow> byte list \<Rightarrow> byte list \<Rightarrow>
   nat \<Rightarrow> nat \<Rightarrow> sm_state \<Rightarrow> sm_state" where
  "sm_byte F pt k1PosNAF k1NegNAF k2PosNAF k2NegNAF m i s =
     (let k1Len = length k1PosNAF;
          k2Len = length k2PosNAF;
          s = (if i < m - k1Len then s\<lparr>k1BytePos := 0, k1ByteNeg := 0\<rparr>
               else s\<lparr>k1BytePos := k1PosNAF ! (i - (m - k1Len)),
                      k1ByteNeg := k1NegNAF ! (i - (m - k1Len))\<rparr>);
          s = (if i < m - k2Len then s\<lparr>k2BytePos := 0, k2ByteNeg := 0\<rparr>
               else s\<lparr>k2BytePos := k2PosNAF ! (i - (m - k2Len)),
                      k2ByteNeg := k2NegNAF ! (i - (m - k2Len))\<rparr>)
      in fold (\<lambda>j. sm_bit F pt) (rev [0..<8]) s)"

text \<open>
  \<open>ScalarMult\<close> up to the end of its loop: the operand points as the loop reads them
  (after the sign swap) and the loop variables as the loop leaves them, the accumulator
  \<open>(qx, qy, qz)\<close> among them.
\<close>

definition ScalarMult_run ::
  "jacobian_formulas \<Rightarrow> int \<Rightarrow> int \<Rightarrow> byte list \<Rightarrow> sm_points \<times> sm_state" where
  "ScalarMult_run F Bx By k =
     (let (k1, k2, signK1, signK2) = splitK (moduloReduce k);
          (p1x, p1y) = snd (bigAffineToField Bx By);
          p1yNeg = fvNegateVal p1y 1;
          p1z = fvSetInt 1;
          p2x = fvMul2 p1x secp256k1_beta;
          p2y = fvSet p1y;
          p2yNeg = fvNegateVal p2y 1;
          p2z = fvSetInt 1;
          (p1y, p1yNeg) = (if signK1 = - 1 then (p1yNeg, p1y) else (p1y, p1yNeg));
          (p2y, p2yNeg) = (if signK2 = - 1 then (p2yNeg, p2y) else (p2y, p2yNeg));
          (k1PosNAF, k1NegNAF) = NAF k1;
          (k2PosNAF, k2NegNAF) = NAF k2;
          k1Len = length k1PosNAF;
          k2Len = length k2PosNAF;
          m = (if k1Len < k2Len then k2Len else k1Len);
          pt = \<lparr>p1x = p1x, p1y = p1y, p1yNeg = p1yNeg, p1z = p1z,
                p2x = p2x, p2y = p2y, p2yNeg = p2yNeg, p2z = p2z\<rparr>;
          s0 = \<lparr>qx = fvNew, qy = fvNew, qz = fvNew,
                k1BytePos = 0, k1ByteNeg = 0, k2BytePos = 0, k2ByteNeg = 0\<rparr>;
          s = fold (sm_byte F pt k1PosNAF k1NegNAF k2PosNAF k2NegNAF m) [0..<m] s0
      in (pt, s))"

text \<open>\<open>ScalarMult\<close>: its last statement converts the accumulator to affine integers.\<close>

definition ScalarMult :: "jacobian_formulas \<Rightarrow> int \<Rightarrow> int \<Rightarrow> byte list \<Rightarrow> int \<times> int" where
  "ScalarMult F Bx By k =
     (let (pt, s) = ScalarMult_run F Bx By k
      in snd (fieldJacobianToBigAffine (qx s) (qy s) (qz s)))"

section \<open>ScalarBaseMult\<close>

text \<open>
  The table \<open>bytePoints\<close> is a \<open>[32][256][3]fieldVal\<close> array whose contents are not among
  the source files; it is a parameter. Go panics on an index outside an array, so a
  lookup returns \<open>None\<close> there.
\<close>

type_synonym byte_points = "nat \<Rightarrow> nat \<Rightarrow> jacobian"

definition bytePoints_len :: nat where
  "bytePoints_len = 32"

definition bytePointsAt :: "byte_points \<Rightarrow> int \<Rightarrow> nat \<Rightarrow> jacobian option" where
  "bytePointsAt bytePoints w b =
     (if 0 \<le> w \<and> w < int bytePoints_len \<and> b < 256 then Some (bytePoints (nat w) b) else None)"

text \<open>The loop over the bytes of \<open>newK\<close>, from index \<open>i\<close> on; \<open>None\<close> is the panic.\<close>

fun sbm_loop ::
  "jacobian_formulas \<Rightarrow> byte_points \<Rightarrow> int \<Rightarrow> nat \<Rightarrow> byte list \<Rightarrow> jacobian \<Rightarrow> jacobian option" where
  "sbm_loop F bytePoints diff i [] q = Some q"
| "sbm_loop F bytePoints diff i (byteVal # rest) q =
     (case bytePointsAt bytePoints (diff + int i) (unat byteVal) of
        None \<Rightarrow> None
      | Some (px, py, pz) \<Rightarrow>
          (case q of (x, y, z) \<Rightarrow>
             sbm_loop F bytePoints diff (Suc i) rest (addJacobian F x y z px py pz)))"

definition ScalarBaseMult ::
  "jacobian_formulas \<Rightarrow> byte_points \<Rightarrow> byte list \<Rightarrow> (int \<times> int) option" where
  "ScalarBaseMult F bytePoints k =
     (let newK = moduloReduce k;
          diff = int bytePoints_len - int (length newK)
      in case sbm_loop F bytePoints diff 0 newK (fvNew, fvNew, fvNew) of
           None \<Rightarrow> None
         | Some (x, y, z) \<Rightarrow> Some (snd (fieldJacobianToBigAffine x y z)))"

section \<open>Equality of residues\<close>

text \<open>
  Two field values stand for the same residue modulo \<open>P\<close> when their normalized forms
  are equal. The claims that are equations between field elements are stated with it.
\<close>

definition fvCong :: "fieldVal \<Rightarrow> fieldVal \<Rightarrow> bool" where
  "fvCong u v = (fvNormalize u = fvNormalize v)"

section \<open>Accumulators with zero X and Y\<close>

text \<open>
  The Jacobian triples whose X and Y are zero residues and whose Z is the residue 0 or 1,
  and the operand points of \<open>ScalarMult\<close> that are of this kind. They state the loop
  invariant of \<open>ScalarMult\<close> on the input \<open>(0, 0)\<close>.
\<close>

definition zero_xy :: "jacobian \<Rightarrow> bool" where
  "zero_xy q = (case q of (x, y, z) \<Rightarrow>
     fvIsZero x \<and> fvIsZero y \<and> (fvIsZero z \<or> fvNormalize z = 1))"


definition acc_zero_xy :: "sm_state \<Rightarrow> bool" where
  "acc_zero_xy s = zero_xy (qx s, qy s, qz s)"

section \<open>Big-endian byte sequences: value, bounds and bits\<close>

lemma be_int_nonneg: "0 \<le> be_int bs"
  by (induction bs) auto

lemma be_int_bound: "be_int bs < 256 ^ length bs"
proof (induction bs)
  case Nil
  then show ?case by simp
next
  case (Cons b bs)
  have "uint b \<le> 255" using uint_bounded[of b] by simp
  then have "uint b * 256 ^ length bs \<le> 255 * 256 ^ length bs"
    by (simp add: mult_right_mono)
  with Cons have "uint b * 256 ^ length bs + be_int bs < 255 * 256 ^ length bs + 256 ^ length bs"
    by linarith
  then show ?case by simp
qed

lemma pow256: "(256::int) ^ n = 2 ^ (8 * n)"
  by (simp add: power_mult)

lemma be_int_update:
  "i < length xs \<Longrightarrow>
   be_int (xs[i := v]) = be_int xs + (uint v - uint (xs ! i)) * 256 ^ (length xs - 1 - i)"
proof (induction xs arbitrary: i)
  case Nil
  then show ?case by simp
next
  case (Cons x xs)
  then show ?case by (cases i) (simp_all add: algebra_simps)
qed

lemma be_int_nth_le:
  "i < length xs \<Longrightarrow> uint (xs ! i) * 256 ^ (length xs - 1 - i) \<le> be_int xs"
proof (induction xs arbitrary: i)
  case Nil
  then show ?case by simp
next
  case (Cons x xs)
  show ?case
  proof (cases i)
    case 0
    then show ?thesis using be_int_nonneg[of xs] by simp
  next
    case (Suc i')
    with Cons have a: "uint (xs ! i') * 256 ^ (length xs - 1 - i') \<le> be_int xs" by simp
    have b: "0 \<le> uint x * 256 ^ length xs" by simp
    from a b have "uint (xs ! i') * 256 ^ (length xs - 1 - i') \<le> uint x * 256 ^ length xs + be_int xs"
      by linarith
    then show ?thesis using Suc by simp
  qed
qed

lemma bit_be_int: "bit (be_int bs) t = bitAt bs t"
proof (induction bs arbitrary: t)
  case Nil
  then show ?case by (simp add: bitAt_def)
next
  case (Cons b bs)
  let ?n = "length bs"
  have tb: "take_bit (8 * ?n) (be_int bs) = be_int bs"
    using be_int_nonneg[of bs] be_int_bound[of bs]
    by (simp add: take_bit_int_eq_self pow256)
  have eq: "be_int (b # bs) = concat_bit (8 * ?n) (be_int bs) (uint b)"
    by (simp add: concat_bit_eq tb push_bit_eq_mult pow256)
  show ?case
  proof (cases "t < 8 * ?n")
    case True
    then have "t div 8 < ?n" by simp
    then have "(b # bs) ! (length (b # bs) - 1 - t div 8) = bs ! (?n - 1 - t div 8)"
      by (simp add: nth_Cons')
    moreover have "bit (be_int (b # bs)) t = bit (be_int bs) t"
      unfolding eq using True by (simp add: bit_concat_bit_iff)
    ultimately show ?thesis
      using True Cons[of t] by (simp add: bitAt_def)
  next
    case False
    then have ge: "8 * ?n \<le> t" by simp
    have "bit (be_int (b # bs)) t = bit (uint b) (t - 8 * ?n)"
      unfolding eq using False by (simp add: bit_concat_bit_iff)
    also have "\<dots> = (t - 8 * ?n < 8 \<and> bit b (t - 8 * ?n))"
      by (simp add: bit_uint_iff)
    also have "\<dots> = bitAt (b # bs) t"
    proof (cases "t < 8 * ?n + 8")
      case True
      with ge have d: "t div 8 = ?n" by simp
      from ge True have m: "t mod 8 = t - 8 * ?n"
        using minus_mult_div_eq_mod[of t 8] by (simp add: d)
      from True ge have "t - 8 * ?n < 8" by simp
      then show ?thesis using True ge by (simp add: bitAt_def d m)
    next
      case False
      then show ?thesis by (auto simp add: bitAt_def)
    qed
    finally show ?thesis .
  qed
qed

lemma bitWeight_eq: "bitWeight bs = be_int bs"
proof -
  have "bitWeight bs = (\<Sum>t = 0..<8 * length bs. push_bit t (of_bool (bit (be_int bs) t)))"
    unfolding bitWeight_def interv_sum_list_conv_sum_set_nat
    by (rule sum.cong) (auto simp add: bit_be_int push_bit_eq_mult)
  also have "\<dots> = take_bit (8 * length bs) (be_int bs)"
    by (simp add: take_bit_sum)
  also have "\<dots> = be_int bs"
    using be_int_nonneg[of bs] be_int_bound[of bs]
    by (simp add: take_bit_int_eq_self pow256)
  finally show ?thesis .
qed

section \<open>The NAF recoding on integers keeps its invariant\<close>

lemma bit_add_exp:
  fixes P :: int
  assumes "0 \<le> P" "P < 2 ^ t"
  shows "bit (P + 2 ^ t) m = (bit P m \<or> m = t)"
proof -
  have tb: "take_bit t P = P" using assms by (simp add: take_bit_int_eq_self)
  have nb: "\<And>n. t \<le> n \<Longrightarrow> \<not> bit P n"
    by (metis tb bit_take_bit_iff not_le)
  have "P + 2 ^ t = P OR 2 ^ t"
    by (rule disjunctive_add) (use nb in \<open>auto simp add: bit_exp_iff\<close>)
  then show ?thesis
    by (auto simp add: bit_or_iff bit_exp_iff)
qed

lemma bit_high_zero:
  fixes P :: int
  assumes "0 \<le> P" "P < 2 ^ t" "t \<le> n"
  shows "\<not> bit P n"
proof -
  have tb: "take_bit t P = P" using assms by (simp add: take_bit_int_eq_self)
  show ?thesis using assms(3) by (metis tb bit_take_bit_iff not_le)
qed

lemma mod_exp_Suc:
  fixes K :: int
  shows "K mod (2 * 2 ^ t) = K mod 2 ^ t + (if bit K t then 2 ^ t else 0)"
  using take_bit_Suc_from_most[of t K] by (simp add: take_bit_eq_mod)

lemma naf_invI:
  assumes "0 \<le> P" "P < 2 ^ t" "0 \<le> N" "N < 2 ^ t"
    and "P - N + (if c then 2 ^ t else 0) = K mod 2 ^ t"
    and "\<And>m. \<not> (bit P m \<and> bit N m)"
    and "\<And>m. \<not> ((bit P m \<or> bit N m) \<and> (bit P (Suc m) \<or> bit N (Suc m)))"
    and "\<And>m. Suc m = t \<Longrightarrow> bit P m \<or> bit N m \<Longrightarrow> c = bit K t"
  shows "naf_inv K t (c, P, N)"
  unfolding naf_inv_def using assms by blast

lemma naf_inv_step:
  assumes "naf_inv K t cpn"
  shows "naf_inv K (Suc t) (naf_digit K t cpn)"
proof -
  obtain c P N where cpn: "cpn = (c, P, N)" by (cases cpn) auto
  from assms have P: "0 \<le> P" "P < 2 ^ t" and N: "0 \<le> N" "N < 2 ^ t"
    and val: "P - N + (if c then 2 ^ t else 0) = K mod 2 ^ t"
    and disj: "\<And>m. \<not> (bit P m \<and> bit N m)"
    and adj: "\<And>m. \<not> ((bit P m \<or> bit N m) \<and> (bit P (Suc m) \<or> bit N (Suc m)))"
    and link: "\<And>m. Suc m = t \<Longrightarrow> bit P m \<or> bit N m \<Longrightarrow> c = bit K t"
    by (auto simp add: naf_inv_def cpn)
  have hiP: "\<And>n. t \<le> n \<Longrightarrow> \<not> bit P n" using bit_high_zero[OF P] by blast
  have hiN: "\<And>n. t \<le> n \<Longrightarrow> \<not> bit N n" using bit_high_zero[OF N] by blast
  have bP: "\<And>m. bit (P + 2 ^ t) m = (bit P m \<or> m = t)" using bit_add_exp[OF P] by blast
  have bN: "\<And>m. bit (N + 2 ^ t) m = (bit N m \<or> m = t)" using bit_add_exp[OF N] by blast
  have prev: "c \<noteq> bit K t \<Longrightarrow> Suc m = t \<Longrightarrow> \<not> bit P m \<and> \<not> bit N m" for m
    using link by blast
  have keep: "naf_inv K (Suc t) (c, P, N)" if "c = bit K t"
  proof (rule naf_invI)
    show "P - N + (if c then 2 ^ Suc t else 0) = K mod 2 ^ Suc t"
      using val that by (auto simp add: mod_exp_Suc split: if_splits)
    show "P < 2 ^ Suc t" "N < 2 ^ Suc t" using P N by simp_all
    show "c = bit K (Suc t)" if "Suc m = Suc t" "bit P m \<or> bit N m" for m
      using that hiP[of t] hiN[of t] by auto
  qed (use P N disj adj in auto)
  have neg: "naf_inv K (Suc t) (True, P, N + 2 ^ t)" if "c \<noteq> bit K t" "bit K (Suc t)"
  proof (rule naf_invI)
    show "P - (N + 2 ^ t) + (if True then 2 ^ Suc t else 0) = K mod 2 ^ Suc t"
      using val that by (auto simp add: mod_exp_Suc split: if_splits)
    show "P < 2 ^ Suc t" "N + 2 ^ t < 2 ^ Suc t" "0 \<le> N + 2 ^ t" "0 \<le> P" using P N by simp_all
    show "\<not> (bit P m \<and> bit (N + 2 ^ t) m)" for m
      using disj[of m] hiP[of t] by (auto simp add: bN)
    show "\<not> ((bit P m \<or> bit (N + 2 ^ t) m) \<and> (bit P (Suc m) \<or> bit (N + 2 ^ t) (Suc m)))" for m
      using adj[of m] hiP[of "Suc t"] hiN[of "Suc t"] hiP[of t] prev[OF that(1), of m]
      by (auto simp add: bN)
    show "True = bit K (Suc t)" if "Suc m = Suc t" "bit P m \<or> bit (N + 2 ^ t) m" for m
      using \<open>bit K (Suc t)\<close> by simp
  qed
  have pos: "naf_inv K (Suc t) (False, P + 2 ^ t, N)" if "c \<noteq> bit K t" "\<not> bit K (Suc t)"
  proof (rule naf_invI)
    show "P + 2 ^ t - N + (if False then 2 ^ Suc t else 0) = K mod 2 ^ Suc t"
      using val that by (auto simp add: mod_exp_Suc split: if_splits)
    show "N < 2 ^ Suc t" "P + 2 ^ t < 2 ^ Suc t" "0 \<le> P + 2 ^ t" "0 \<le> N" using P N by simp_all
    show "\<not> (bit (P + 2 ^ t) m \<and> bit N m)" for m
      using disj[of m] hiN[of t] by (auto simp add: bP)
    show "\<not> ((bit (P + 2 ^ t) m \<or> bit N m) \<and> (bit (P + 2 ^ t) (Suc m) \<or> bit N (Suc m)))" for m
      using adj[of m] hiP[of "Suc t"] hiN[of "Suc t"] hiN[of t] prev[OF that(1), of m]
      by (auto simp add: bP)
    show "False = bit K (Suc t)" if "Suc m = Suc t" "bit (P + 2 ^ t) m \<or> bit N m" for m
      using \<open>\<not> bit K (Suc t)\<close> by simp
  qed
  show ?thesis
    unfolding cpn naf_digit_def using keep neg pos by auto
qed

section \<open>The loops of NAF follow the integer recoding\<close>

lemma uint_push_bit_1:
  assumes j: "j < 8"
  shows "uint (push_bit j 1 :: byte) = 2 ^ j"
proof -
  have "uint (push_bit j 1 :: byte) = take_bit LENGTH(8) (push_bit j (uint (1 :: byte)))"
    by (rule unsigned_push_bit_eq)
  also have "\<dots> = 2 ^ j" using j by simp
  finally show ?thesis .
qed

lemma be_int_set_bit:
  assumes i: "i < length xs" and j: "j < 8"
    and b: "be_int xs < 2 ^ (8 * (length xs - 1 - i) + j)"
  shows "be_int (xs[i := xs ! i + push_bit j 1]) = be_int xs + 2 ^ (8 * (length xs - 1 - i) + j)"
proof -
  let ?e = "length xs - 1 - i"
  have le: "uint (xs ! i) * 2 ^ (8 * ?e) \<le> be_int xs"
    using be_int_nth_le[OF i] by (simp only: pow256)
  from b have b': "be_int xs < 2 ^ j * 2 ^ (8 * ?e)"
    by (simp only: power_add mult.commute)
  from le b' have "uint (xs ! i) * 2 ^ (8 * ?e) < 2 ^ j * 2 ^ (8 * ?e)"
    by (rule le_less_trans)
  then have small: "uint (xs ! i) < 2 ^ j" by simp
  have pj: "uint (push_bit j 1 :: byte) = 2 ^ j"
    using j by (rule uint_push_bit_1)
  have "(2::int) ^ j + 2 ^ j \<le> 2 ^ 8"
    using j power_increasing[of "Suc j" 8 "2::int"] by simp
  with small have "uint (xs ! i) + 2 ^ j < 2 ^ LENGTH(8)"
    by simp
  then have "uint (xs ! i) + uint (push_bit j 1 :: byte) < 2 ^ LENGTH(8)"
    by (simp only: pj)
  then have "uint (xs ! i + push_bit j 1) = uint (xs ! i) + uint (push_bit j 1 :: byte)"
    by (rule uint_add_lem[THEN iffD1])
  then have "uint (xs ! i + push_bit j 1) = uint (xs ! i) + 2 ^ j"
    by (simp only: pj)
  then show ?thesis
    by (simp add: be_int_update[OF i] pow256 power_add)
qed

lemma and_1_iff_bit: "(w AND 1 = 1) = bit w 0" for w :: byte
  using bit_iff_and_drop_bit_eq_1[of w 0] by simp

lemma and_2_iff_bit: "(w AND 2 = 2) = bit w 1" for w :: byte
proof
  assume "w AND 2 = 2"
  then have "bit (w AND 2) 1 = bit (2 :: byte) 1" by simp
  then show "bit w 1" by (simp add: bit_and_iff)
next
  assume b: "bit w 1"
  show "w AND 2 = 2"
    by (rule bit_eqI) (use b in \<open>auto simp add: bit_and_iff bit_2_iff\<close>)
qed

text \<open>The bit the loops look at, at byte \<open>i\<close> and bit \<open>j\<close>, is bit \<open>8 * (n - 1 - i) + j\<close> of the input.\<close>

lemma bit_be_int_at:
  assumes "i < length k" "j < 8"
  shows "bit (be_int k) (8 * (length k - 1 - i) + j) = bit (k ! i) j"
proof -
  let ?t = "8 * (length k - 1 - i) + j"
  have d: "?t div 8 = length k - 1 - i" and m: "?t mod 8 = j" using assms by simp_all
  have lt: "?t < 8 * length k" using assms by simp
  have idx: "length k - 1 - (length k - 1 - i) = i" using assms by simp
  show ?thesis
    unfolding bit_be_int bitAt_def d m idx using lt by simp
qed

lemma bit_be_int_top: "\<not> bit (be_int k) (8 * length k)"
  by (simp add: bit_be_int bitAt_def)

lemma naf_bit_abs:
  assumes i: "i < length k" and j: "j < 8"
    and rel: "naf_rel k (8 * (length k - 1 - i) + j) s"
  shows "\<exists>s'. naf_bit k i j (drop_bit j (k ! i), s) = (drop_bit (Suc j) (k ! i), s') \<and>
           length (retPos s') = length k + 1 \<and> length (retNeg s') = length k + 1 \<and>
           naf_abs s' = naf_digit (be_int k) (8 * (length k - 1 - i) + j) (naf_abs s)"
proof -
  let ?t = "8 * (length k - 1 - i) + j"
  let ?cb = "drop_bit j (k ! i)"
  from rel have lp: "length (retPos s) = length k + 1" and ln: "length (retNeg s) = length k + 1"
    and inv: "naf_inv (be_int k) ?t (naf_abs s)"
    by (simp_all add: naf_rel_def)
  from inv have bp: "be_int (retPos s) < 2 ^ ?t" and bn: "be_int (retNeg s) < 2 ^ ?t"
    by (simp_all add: naf_inv_def naf_abs_def)
  have e: "length (retPos s) - 1 - (i + 1) = length k - 1 - i"
    "length (retNeg s) - 1 - (i + 1) = length k - 1 - i"
    using lp ln i by simp_all
  have up: "be_int ((retPos s)[i + 1 := retPos s ! (i + 1) + push_bit j 1]) = be_int (retPos s) + 2 ^ ?t"
    using be_int_set_bit[of "i + 1" "retPos s" j] i j lp bp by (simp only: e) simp
  have un: "be_int ((retNeg s)[i + 1 := retNeg s ! (i + 1) + push_bit j 1]) = be_int (retNeg s) + 2 ^ ?t"
    using be_int_set_bit[of "i + 1" "retNeg s" j] i j ln bn by (simp only: e) simp
  from up have up': "be_int ((retPos s)[Suc i := retPos s ! Suc i + 2 ^ j])
      = be_int (retPos s) + 2 ^ (8 * (length k - Suc i) + j)" by simp
  from un have un': "be_int ((retNeg s)[Suc i := retNeg s ! Suc i + 2 ^ j])
      = be_int (retNeg s) + 2 ^ (8 * (length k - Suc i) + j)" by simp
  have cur: "(?cb AND 1 = 1) = bit (be_int k) ?t"
    unfolding bit_be_int_at[OF i j] by (simp add: and_1_iff_bit bit_drop_bit_eq)
  have nxt: "(if j = 7 then (if i = 0 then False else (k ! (i - 1)) AND 1 = 1) else ?cb AND 2 = 2)
             = bit (be_int k) (Suc ?t)"
  proof (cases "j = 7")
    case False
    with j have j': "Suc j < 8" by simp
    have "Suc ?t = 8 * (length k - 1 - i) + Suc j" by simp
    then have "bit (be_int k) (Suc ?t) = bit (k ! i) (Suc j)"
      using bit_be_int_at[OF i j'] by simp
    with False show ?thesis by (simp add: and_2_iff_bit bit_drop_bit_eq)
  next
    case True
    show ?thesis
    proof (cases "i = 0")
      case True
      then have "Suc ?t = 8 * length k" using \<open>j = 7\<close> i by (cases k) simp_all
      then show ?thesis using True \<open>j = 7\<close> bit_be_int_top[of k] by simp
    next
      case False
      then have i': "i - 1 < length k" using i by simp
      have "Suc ?t = 8 * (length k - 1 - (i - 1)) + 0" using \<open>j = 7\<close> i False by simp
      then have "bit (be_int k) (Suc ?t) = bit (k ! (i - 1)) 0"
        using bit_be_int_at[OF i', of 0] by simp
      with False \<open>j = 7\<close> show ?thesis by (simp add: and_1_iff_bit)
    qed
  qed
  show ?thesis
    unfolding naf_bit_def
    by (simp only: prod.case Let_def cur nxt)
       (simp add: naf_abs_def naf_digit_def lp ln up' un')
qed

lemma naf_bit_rel:
  assumes i: "i < length k" and j: "j < 8"
    and rel: "naf_rel k (8 * (length k - 1 - i) + j) s"
  shows "\<exists>s'. naf_bit k i j (drop_bit j (k ! i), s) = (drop_bit (Suc j) (k ! i), s') \<and>
           naf_rel k (8 * (length k - 1 - i) + Suc j) s'"
proof -
  from naf_bit_abs[OF i j rel] obtain s' where
    st: "naf_bit k i j (drop_bit j (k ! i), s) = (drop_bit (Suc j) (k ! i), s')"
    and l: "length (retPos s') = length k + 1" "length (retNeg s') = length k + 1"
    and a: "naf_abs s' = naf_digit (be_int k) (8 * (length k - 1 - i) + j) (naf_abs s)"
    by blast
  from rel have "naf_inv (be_int k) (8 * (length k - 1 - i) + j) (naf_abs s)"
    by (simp add: naf_rel_def)
  then have "naf_inv (be_int k) (Suc (8 * (length k - 1 - i) + j)) (naf_abs s')"
    unfolding a by (rule naf_inv_step)
  then have "naf_rel k (8 * (length k - 1 - i) + Suc j) s'"
    using l by (simp add: naf_rel_def)
  with st show ?thesis by blast
qed

lemma fold_upt_invariant:
  assumes "I 0 x" and "\<And>j y. j < n \<Longrightarrow> I j y \<Longrightarrow> I (Suc j) (f j y)"
  shows "I n (fold f [0..<n] x)"
  using assms
proof (induction n)
  case 0
  then show ?case by simp
next
  case (Suc n)
  then have "I n (fold f [0..<n] x)" by simp
  then have "I (Suc n) (f n (fold f [0..<n] x))" using Suc.prems(2) by simp
  then show ?case by simp
qed

lemma fold_rev_upt_invariant:
  assumes "Q n x" and "\<And>i y. i < n \<Longrightarrow> Q (Suc i) y \<Longrightarrow> Q i (f i y)"
  shows "Q 0 (fold f (rev [0..<n]) x)"
  using assms
proof (induction n arbitrary: x)
  case 0
  then show ?case by simp
next
  case (Suc n)
  from Suc.prems have "Q n (f n x)" by simp
  then have "Q 0 (fold f (rev [0..<n]) (f n x))"
    using Suc.prems(2) by (intro Suc.IH) simp_all
  then show ?case by simp
qed

lemma naf_byte_rel:
  assumes i: "i < length k" and rel: "naf_rel k (8 * (length k - Suc i)) s"
  shows "naf_rel k (8 * (length k - i)) (naf_byte k i s)"
proof -
  define I where
    "I = (\<lambda>j cs. fst cs = drop_bit j (k ! i) \<and> naf_rel k (8 * (length k - 1 - i) + j) (snd cs))"
  have "I 8 (fold (naf_bit k i) [0..<8] (k ! i, s))"
  proof (rule fold_upt_invariant)
    show "I 0 (k ! i, s)" using rel by (simp add: I_def)
  next
    fix j cs
    assume j: "j < 8" and I: "I j cs"
    obtain cb s1 where cs: "cs = (cb, s1)" by (cases cs) auto
    from I cs have cb: "cb = drop_bit j (k ! i)"
      and r: "naf_rel k (8 * (length k - 1 - i) + j) s1" by (simp_all add: I_def)
    from naf_bit_rel[OF i j r] show "I (Suc j) (naf_bit k i j cs)"
      unfolding cs cb I_def by auto
  qed
  moreover have "8 * (length k - 1 - i) + 8 = 8 * (length k - i)" using i by simp
  ultimately show ?thesis by (simp add: naf_byte_def I_def)
qed

lemma be_int_replicate_0: "be_int (replicate n 0) = 0"
  by (induction n) simp_all

lemma naf_rel_init:
  "naf_rel k 0 \<lparr>carry = False, retPos = replicate (length k + 1) 0,
                 retNeg = replicate (length k + 1) 0\<rparr>"
  unfolding naf_rel_def naf_abs_def naf_inv_def
  by (simp add: be_int_replicate_0)

lemma naf_loop_rel:
  "naf_rel k (8 * length k)
     (fold (naf_byte k) (rev [0..<length k])
        \<lparr>carry = False, retPos = replicate (length k + 1) 0,
         retNeg = replicate (length k + 1) 0\<rparr>)"
proof -
  define Q where "Q = (\<lambda>i s. naf_rel k (8 * (length k - i)) s)"
  have "Q 0 (fold (naf_byte k) (rev [0..<length k])
        \<lparr>carry = False, retPos = replicate (length k + 1) 0,
         retNeg = replicate (length k + 1) 0\<rparr>)"
  proof (rule fold_rev_upt_invariant)
    show "Q (length k) \<lparr>carry = False, retPos = replicate (length k + 1) 0,
         retNeg = replicate (length k + 1) 0\<rparr>"
      using naf_rel_init[of k] by (simp add: Q_def)
  next
    fix i y assume "i < length k" "Q (Suc i) y"
    then show "Q i (naf_byte k i y)" unfolding Q_def by (rule naf_byte_rel)
  qed
  then show ?thesis by (simp add: Q_def)
qed

section \<open>What NAF returns\<close>

lemma be_int_head_zero:
  assumes "length xs = Suc n" "be_int xs < 2 ^ (8 * n)"
  shows "xs ! 0 = 0"
proof -
  have "uint (xs ! 0) * 256 ^ (length xs - 1 - 0) \<le> be_int xs"
    using assms(1) by (intro be_int_nth_le) simp
  then have "uint (xs ! 0) * 2 ^ (8 * n) \<le> be_int xs"
    using assms(1) by (simp add: pow256)
  then have "uint (xs ! 0) * 2 ^ (8 * n) < 2 ^ (8 * n)"
    using assms(2) by (rule le_less_trans)
  then have "uint (xs ! 0) < 1" by simp
  then have "uint (xs ! 0) = 0" using uint_ge_0[of "xs ! 0"] by linarith
  then show ?thesis by (simp add: uint_0_iff)
qed

lemma be_int_drop_head:
  assumes "length xs = Suc n" "be_int xs < 2 ^ (8 * n)"
  shows "be_int (drop 1 xs) = be_int xs"
proof -
  from assms(1) obtain x r where xs: "xs = x # r" by (cases xs) auto
  from be_int_head_zero[OF assms] xs have "x = 0" by simp
  with xs show ?thesis by simp
qed

lemma be_int_set_head:
  assumes "length xs = Suc n" "be_int xs < 2 ^ (8 * n)"
  shows "be_int (xs[0 := 1]) = be_int xs + 2 ^ (8 * n)"
proof -
  have "be_int (xs[0 := 1]) = be_int xs + (uint (1 :: byte) - uint (xs ! 0)) * 256 ^ (length xs - 1 - 0)"
    using assms(1) by (intro be_int_update) simp
  then show ?thesis
    using be_int_head_zero[OF assms] assms(1) by (simp add: pow256)
qed

lemma NAF_abs:
  "\<exists>c P N. naf_inv (be_int k) (8 * length k) (c, P, N) \<and>
     be_int (fst (NAF k)) = P + (if c then 2 ^ (8 * length k) else 0) \<and>
     be_int (snd (NAF k)) = N \<and> length (fst (NAF k)) = length (snd (NAF k))"
proof -
  define s where "s = fold (naf_byte k) (rev [0..<length k])
        \<lparr>carry = False, retPos = replicate (length k + 1) 0,
         retNeg = replicate (length k + 1) 0\<rparr>"
  have rel: "naf_rel k (8 * length k) s" unfolding s_def by (rule naf_loop_rel)
  then have lp: "length (retPos s) = Suc (length k)" and ln: "length (retNeg s) = Suc (length k)"
    and inv: "naf_inv (be_int k) (8 * length k) (carry s, be_int (retPos s), be_int (retNeg s))"
    by (simp_all add: naf_rel_def naf_abs_def)
  from inv have bp: "be_int (retPos s) < 2 ^ (8 * length k)"
    and bn: "be_int (retNeg s) < 2 ^ (8 * length k)"
    by (simp_all add: naf_inv_def)
  have res: "NAF k = (if carry s then ((retPos s)[0 := 1], retNeg s)
                      else (drop 1 (retPos s), drop 1 (retNeg s)))"
    by (simp add: NAF_def s_def Let_def)
  have "be_int (fst (NAF k)) = be_int (retPos s) + (if carry s then 2 ^ (8 * length k) else 0)"
    using be_int_set_head[OF lp bp] be_int_drop_head[OF lp bp] by (simp add: res)
  moreover have "be_int (snd (NAF k)) = be_int (retNeg s)"
    using be_int_drop_head[OF ln bn] by (simp add: res)
  moreover have "length (fst (NAF k)) = length (snd (NAF k))"
    using lp ln by (simp add: res)
  ultimately show ?thesis using inv by blast
qed

lemma be_int_mod_self: "be_int k mod 2 ^ (8 * length k) = be_int k"
  using be_int_nonneg[of k] be_int_bound[of k] by (simp add: pow256)

lemma NAF_value: "be_int (fst (NAF k)) - be_int (snd (NAF k)) = be_int k"
proof -
  from NAF_abs[of k] obtain c P N where
    inv: "naf_inv (be_int k) (8 * length k) (c, P, N)"
    and p: "be_int (fst (NAF k)) = P + (if c then 2 ^ (8 * length k) else 0)"
    and n: "be_int (snd (NAF k)) = N" by blast
  from inv have "P - N + (if c then 2 ^ (8 * length k) else 0) = be_int k"
    by (simp add: naf_inv_def be_int_mod_self)
  then show ?thesis by (simp add: p n)
qed

lemma NAF_bits:
  "\<not> (bit (be_int (fst (NAF k))) m \<and> bit (be_int (snd (NAF k))) m)"
  "\<not> ((bit (be_int (fst (NAF k))) m \<or> bit (be_int (snd (NAF k))) m) \<and>
      (bit (be_int (fst (NAF k))) (Suc m) \<or> bit (be_int (snd (NAF k))) (Suc m)))"
proof -
  let ?t = "8 * length k"
  from NAF_abs[of k] obtain c P N where
    inv: "naf_inv (be_int k) ?t (c, P, N)"
    and p: "be_int (fst (NAF k)) = P + (if c then 2 ^ ?t else 0)"
    and n: "be_int (snd (NAF k)) = N" by blast
  from inv have P: "0 \<le> P" "P < 2 ^ ?t" and N: "0 \<le> N" "N < 2 ^ ?t"
    and disj: "\<And>m. \<not> (bit P m \<and> bit N m)"
    and adj: "\<And>m. \<not> ((bit P m \<or> bit N m) \<and> (bit P (Suc m) \<or> bit N (Suc m)))"
    and link: "\<And>m. Suc m = ?t \<Longrightarrow> bit P m \<or> bit N m \<Longrightarrow> c = bit (be_int k) ?t"
    by (auto simp add: naf_inv_def)
  have hiP: "\<And>n. ?t \<le> n \<Longrightarrow> \<not> bit P n" using bit_high_zero[OF P] by blast
  have hiN: "\<And>n. ?t \<le> n \<Longrightarrow> \<not> bit N n" using bit_high_zero[OF N] by blast
  have bP: "\<And>m. bit (P + 2 ^ ?t) m = (bit P m \<or> m = ?t)" using bit_add_exp[OF P] by blast
  have last: "c \<Longrightarrow> Suc m = ?t \<Longrightarrow> \<not> bit P m \<and> \<not> bit N m" for m
    using link[of m] bit_be_int_top[of k] by blast
  show "\<not> (bit (be_int (fst (NAF k))) m \<and> bit (be_int (snd (NAF k))) m)"
    unfolding p n using disj[of m] hiN[of ?t] by (auto simp add: bP)
  show "\<not> ((bit (be_int (fst (NAF k))) m \<or> bit (be_int (snd (NAF k))) m) \<and>
      (bit (be_int (fst (NAF k))) (Suc m) \<or> bit (be_int (snd (NAF k))) (Suc m)))"
    unfolding p n
    using adj[of m] hiP[of "Suc ?t"] hiN[of "Suc ?t"] hiN[of ?t] last[of m]
    by (auto simp add: bP)
qed

section \<open>Integers, the prime and the conversion of the point at infinity\<close>

declare abs_bytes.simps [simp del]
declare fvPow.simps [simp del]

lemma abs_bytes_0: "abs_bytes 0 = []"
  by (simp add: abs_bytes.simps)

lemma bigBytes_0: "bigBytes 0 = []"
  by (simp add: bigBytes_def abs_bytes_0)

lemma secp256k1_P_pos: "0 < secp256k1_P"
  by (simp add: secp256k1_P_def)


lemma bigAffineToField_0: "snd (bigAffineToField 0 0) = (0, 0)"
  by (simp add: bigAffineToField_def fvSetByteSlice_def bigBytes_0)

lemma bigSign_0_iff: "bigSign x = 0 \<longleftrightarrow> x = 0"
  by (simp add: bigSign_def sgn_if)

section \<open>Equality of residues is a congruence for the field operations\<close>

lemma fvCong_refl: "fvCong u u"
  by (simp add: fvCong_def)

lemma fvCong_sym: "fvCong u v \<Longrightarrow> fvCong v u"
  by (simp add: fvCong_def)

lemma fvCong_trans: "fvCong u v \<Longrightarrow> fvCong v w \<Longrightarrow> fvCong u w"
  by (simp add: fvCong_def)

lemma fvCong_Normalize: "fvCong (fvNormalize u) u"
  by (simp add: fvCong_def fvNormalize_def)

lemma fvCong_Normalize_left: "fvCong u v \<Longrightarrow> fvCong (fvNormalize u) v"
  by (simp add: fvCong_def fvNormalize_def)

lemma fvCong_add: "fvCong a a' \<Longrightarrow> fvCong b b' \<Longrightarrow> fvCong (a + b) (a' + b')"
  unfolding fvCong_def fvNormalize_def by (rule mod_add_cong)

lemma fvCong_diff: "fvCong a a' \<Longrightarrow> fvCong b b' \<Longrightarrow> fvCong (a - b) (a' - b')"
  unfolding fvCong_def fvNormalize_def by (rule mod_diff_cong)

lemma fvCong_mult: "fvCong a a' \<Longrightarrow> fvCong b b' \<Longrightarrow> fvCong (a * b) (a' * b')"
  unfolding fvCong_def fvNormalize_def by (rule mod_mult_cong)

lemma fvCong_Mul2: "fvCong a a' \<Longrightarrow> fvCong b b' \<Longrightarrow> fvCong (fvMul2 a b) (a' * b')"
  unfolding fvCong_def fvNormalize_def fvMul2_def mod_mod_trivial
  by (rule mod_mult_cong)

lemma fvCong_NegateVal: "fvCong u v \<Longrightarrow> fvCong (fvNegateVal u m) (- v)"
proof -
  assume "fvCong u v"
  then have "(0 - u) mod secp256k1_P = (0 - v) mod secp256k1_P"
    unfolding fvCong_def fvNormalize_def by (intro mod_diff_cong) simp_all
  moreover have "((int m + 1) * secp256k1_P - u) mod secp256k1_P = (0 - u) mod secp256k1_P"
    by (intro mod_diff_cong) simp_all
  ultimately show ?thesis
    by (simp add: fvCong_def fvNormalize_def fvNegateVal_def)
qed

lemma addZ1EqualsZ2_formula_lemma:
  assumes ne: "fvNormalize x1 \<noteq> fvNormalize x2"
  shows "\<exists>x3 y3 z3. addZ1EqualsZ2 F x1 y1 z1 x2 y2 = (x3, y3, z3) \<and>
           fvCong x3 ((y2 - y1) * (y2 - y1) - x1 * ((x2 - x1) * (x2 - x1)) - x2 * ((x2 - x1) * (x2 - x1))) \<and>
           fvCong y3 ((y2 - y1) * (x1 * ((x2 - x1) * (x2 - x1)) - x3)
                      - y1 * (x2 * ((x2 - x1) * (x2 - x1)) - x1 * ((x2 - x1) * (x2 - x1)))) \<and>
           fvCong z3 (z1 * (x2 - x1))"
proof -
  define x1n where "x1n = fvNormalize x1"
  define y1n where "y1n = fvNormalize y1"
  define x2n where "x2n = fvNormalize x2"
  define y2n where "y2n = fvNormalize y2"
  define negX1 where "negX1 = fvNegateVal x1n 1"
  define negY1 where "negY1 = fvNegateVal y1n 1"
  define a where "a = negX1 + x2n"
  define b where "b = fvMul2 a a"
  define c where "c = negY1 + y2n"
  define d where "d = fvMul2 c c"
  define e where "e = fvMul2 x1n b"
  define negE where "negE = fvNegateVal e 1"
  define f where "f = fvMul2 x2n b"
  define x3 where "x3 = fvNegateVal (e + f) 3 + d"
  define negX3 where "negX3 = fvNormalize (fvNegateVal x3 5)"
  define f' where "f' = f + negE"
  define y3 where "y3 = fvNegateVal (fvMul2 y1n f') 3"
  define e' where "e' = fvMul2 (e + negX3) c"
  define y3' where "y3' = y3 + e'"
  define z3 where "z3 = fvMul2 z1 a"
  let ?A = "x2 - x1" let ?B = "?A * ?A" let ?C = "y2 - y1" let ?D = "?C * ?C"
  let ?E = "x1 * ?B" let ?F = "x2 * ?B"
  have res: "addZ1EqualsZ2 F x1 y1 z1 x2 y2 = (fvNormalize x3, fvNormalize y3', z3)"
    unfolding x1n_def y1n_def x2n_def y2n_def negX1_def negY1_def a_def b_def c_def d_def
      e_def negE_def f_def x3_def negX3_def f'_def y3_def e'_def y3'_def z3_def
    apply (simp only: addZ1EqualsZ2_def Let_def)
    apply (simp only: fvEquals_def ne if_False)
    apply (simp only: fvSet_def fvNegate_def fvAdd_def fvAdd2_def fvSquareVal_def fvMul_def)
    done
  have x1n: "fvCong x1n x1" and y1n: "fvCong y1n y1" and x2n: "fvCong x2n x2" and y2n: "fvCong y2n y2"
    by (simp_all add: x1n_def y1n_def x2n_def y2n_def fvCong_Normalize)
  have "fvCong a (- x1 + x2)"
    unfolding a_def negX1_def by (intro fvCong_add fvCong_NegateVal x1n x2n)
  then have a: "fvCong a ?A" by (simp add: algebra_simps)
  have b: "fvCong b ?B" unfolding b_def by (intro fvCong_Mul2 a)
  have "fvCong c (- y1 + y2)"
    unfolding c_def negY1_def by (intro fvCong_add fvCong_NegateVal y1n y2n)
  then have c: "fvCong c ?C" by (simp add: algebra_simps)
  have d: "fvCong d ?D" unfolding d_def by (intro fvCong_Mul2 c)
  have e: "fvCong e ?E" unfolding e_def by (intro fvCong_Mul2 x1n b)
  have f: "fvCong f ?F" unfolding f_def by (intro fvCong_Mul2 x2n b)
  have "fvCong x3 (- (?E + ?F) + ?D)"
    unfolding x3_def by (intro fvCong_add fvCong_NegateVal e f d)
  then have x3: "fvCong x3 (?D - ?E - ?F)" by (simp add: algebra_simps)
  have negX3: "fvCong negX3 (- fvNormalize x3)"
    unfolding negX3_def
    by (intro fvCong_Normalize_left fvCong_NegateVal fvCong_sym[OF fvCong_Normalize])
  have "fvCong f' (?F + - ?E)"
    unfolding f'_def negE_def by (intro fvCong_add fvCong_NegateVal e f)
  then have f': "fvCong f' (?F - ?E)" by simp
  have y3: "fvCong y3 (- (y1 * (?F - ?E)))"
    unfolding y3_def by (intro fvCong_NegateVal fvCong_Mul2 y1n f')
  have "fvCong e' ((?E + - fvNormalize x3) * ?C)"
    unfolding e'_def by (intro fvCong_Mul2 fvCong_add e negX3 c)
  then have e': "fvCong e' (?C * (?E - fvNormalize x3))" by (simp add: algebra_simps)
  have "fvCong y3' (- (y1 * (?F - ?E)) + ?C * (?E - fvNormalize x3))"
    unfolding y3'_def by (intro fvCong_add y3 e')
  then have y3': "fvCong y3' (?C * (?E - fvNormalize x3) - y1 * (?F - ?E))"
    by (simp add: algebra_simps)
  have z3: "fvCong z3 (z1 * ?A)"
    unfolding z3_def by (intro fvCong_Mul2 fvCong_refl a)
  show ?thesis
  proof (intro exI conjI)
    show "addZ1EqualsZ2 F x1 y1 z1 x2 y2 = (fvNormalize x3, fvNormalize y3', z3)"
      by (rule res)
    show "fvCong (fvNormalize x3) (?D - ?E - ?F)"
      by (rule fvCong_Normalize_left[OF x3])
    show "fvCong (fvNormalize y3') (?C * (?E - fvNormalize x3) - y1 * (?F - ?E))"
      by (rule fvCong_Normalize_left[OF y3'])
    show "fvCong z3 (z1 * ?A)" by (rule z3)
  qed
qed

section \<open>The conversion back to affine integers\<close>

lemma be_int_snoc: "be_int (xs @ [b]) = be_int xs * 256 + uint b"
  by (induction xs) (simp_all add: algebra_simps)

lemma be_int_be_bytes: "be_int (be_bytes n x) = x mod 256 ^ n"
proof (induction n arbitrary: x)
  case 0
  then show ?case by simp
next
  case (Suc n)
  have u: "uint (word_of_int x :: byte) = x mod 256"
    by (simp add: uint_word_of_int)
  have "be_int (be_bytes (Suc n) x) = (x div 256 mod 256 ^ n) * 256 + x mod 256"
    by (simp add: be_int_snoc Suc u)
  also have "\<dots> = x mod (256 * 256 ^ n)"
    using zmod_zmult2_eq[of "256 ^ n" x 256] by simp
  finally show ?case by simp
qed

lemma be_int_fvBytes_Normalize: "be_int (fvBytes (fvNormalize v)) = fvNormalize v"
proof -
  have "0 \<le> fvNormalize v" "fvNormalize v < secp256k1_P"
    using secp256k1_P_pos by (simp_all add: fvNormalize_def)
  moreover have "secp256k1_P < 256 ^ 32" by (simp add: secp256k1_P_def)
  ultimately have "fvNormalize v mod 256 ^ 32 = fvNormalize v" by simp
  then show ?thesis by (simp only: fvBytes_def be_int_be_bytes)
qed

lemma fieldJacobianToBigAffine_fst:
  "fst (fieldJacobianToBigAffine x y z) =
     (fvNormalize (fvMul x (fvSquareVal (fvInverse z))),
      fvNormalize (fvMul y (fvMul (fvSquareVal (fvInverse z)) (fvInverse z))),
      1)"
  by (simp add: fieldJacobianToBigAffine_def Let_def fvSet_def fvSetInt_def)

lemma fieldJacobianToBigAffine_snd:
  "snd (fieldJacobianToBigAffine x y z) =
     (fvNormalize (fvMul x (fvSquareVal (fvInverse z))),
      fvNormalize (fvMul y (fvMul (fvSquareVal (fvInverse z)) (fvInverse z))))"
  by (simp add: fieldJacobianToBigAffine_def Let_def fvSet_def be_int_fvBytes_Normalize)

section \<open>The reduced scalar fits the table of ScalarBaseMult\<close>

lemma abs_bytes_length: "n < 256 ^ m \<Longrightarrow> length (abs_bytes n) \<le> m"
proof (induction m arbitrary: n)
  case 0
  then have "n \<le> 0" by simp
  then show ?case by (simp add: abs_bytes.simps)
next
  case (Suc m)
  show ?case
  proof (cases "n \<le> 0")
    case True
    then show ?thesis by (simp add: abs_bytes.simps)
  next
    case False
    from Suc.prems have "n div 256 < 256 ^ m" by simp
    then have "length (abs_bytes (n div 256)) \<le> m" by (rule Suc.IH)
    with False show ?thesis by (simp add: abs_bytes.simps[of n])
  qed
qed

lemma secp256k1_N_pos: "0 < secp256k1_N"
  by (simp add: secp256k1_N_def)

lemma moduloReduce_length: "length (moduloReduce k) \<le> 32"
proof -
  let ?r = "be_int k mod secp256k1_N"
  have nn: "0 \<le> ?r" and lt: "?r < secp256k1_N" using secp256k1_N_pos by simp_all
  have "secp256k1_N < 256 ^ 32" by (simp add: secp256k1_N_def)
  with lt have "?r < 256 ^ 32" by linarith
  then have "length (abs_bytes ?r) \<le> 32" by (rule abs_bytes_length)
  moreover have "\<bar>?r\<bar> = ?r" using nn by simp
  ultimately show ?thesis by (simp only: moduloReduce_def bigBytes_def)
qed

lemma sbm_loop_in_bounds:
  "0 \<le> diff \<Longrightarrow> diff + int i + int (length bs) \<le> int bytePoints_len \<Longrightarrow>
   \<exists>q'. sbm_loop F tbl diff i bs q = Some q'"
proof (induction bs arbitrary: i q)
  case Nil
  then show ?case by (cases q) auto
next
  case (Cons b bs)
  have "unat b < 256" using unsigned_less[of b, where ?'a = nat] by simp
  with Cons.prems have at: "bytePointsAt tbl (diff + int i) (unat b) = Some (tbl (nat (diff + int i)) (unat b))"
    by (simp add: bytePointsAt_def)
  obtain px py pz where p: "tbl (nat (diff + int i)) (unat b) = (px, py, pz)"
    by (cases "tbl (nat (diff + int i)) (unat b)") auto
  obtain x y z where q: "q = (x, y, z)" by (cases q) auto
  from Cons.prems have "diff + int (Suc i) + int (length bs) \<le> int bytePoints_len" by simp
  from Cons.IH[OF Cons.prems(1) this] show ?case
    by (simp add: at p q)
qed

lemma ScalarBaseMult_returns: "\<exists>r. ScalarBaseMult F tbl k = Some r"
proof -
  let ?newK = "moduloReduce k"
  let ?diff = "int bytePoints_len - int (length ?newK)"
  have d: "0 \<le> ?diff" using moduloReduce_length[of k] by (simp add: bytePoints_len_def)
  have "?diff + int 0 + int (length ?newK) \<le> int bytePoints_len" by simp
  from sbm_loop_in_bounds[OF d this] obtain q' where
    "sbm_loop F tbl ?diff 0 ?newK (fvNew, fvNew, fvNew) = Some q'" by blast
  then show ?thesis
    by (cases q') (simp add: ScalarBaseMult_def Let_def)
qed

lemma abs_bytes_1: "abs_bytes 1 = [1]"
  by (simp add: abs_bytes.simps[of 1] abs_bytes_0)

lemma moduloReduce_1: "moduloReduce [1] = [1]"
  by (simp add: moduloReduce_def bigBytes_def secp256k1_N_def abs_bytes_1)

section \<open>ScalarMult keeps zero X and Y on the input (0, 0)\<close>

lemma fvIsZero_0: "fvIsZero 0"
  by (simp add: fvIsZero_def fvNormalize_def)



lemma zero_xy_zero: "zero_xy (0, 0, 0)"
  by (simp add: zero_xy_def fvIsZero_0)










lemma fvMul_zero_left: "fvIsZero x \<Longrightarrow> fvNormalize (fvMul x t) = 0"
proof -
  assume "fvIsZero x"
  then have "x mod secp256k1_P = 0" by (simp add: fvIsZero_def fvNormalize_def)
  then have "secp256k1_P dvd x" by (simp add: dvd_eq_mod_eq_0)
  then have "secp256k1_P dvd x * t" by simp
  then show ?thesis by (simp add: fvMul_def fvMul2_def fvNormalize_def)
qed

lemma fieldJacobianToBigAffine_acc_zero_xy:
  assumes "acc_zero_xy s"
  shows "snd (fieldJacobianToBigAffine (qx s) (qy s) (qz s)) = (0, 0)"
proof -
  from assms have "fvIsZero (qx s)" "fvIsZero (qy s)" by (simp_all add: acc_zero_xy_def zero_xy_def)
  then show ?thesis
    by (simp add: fieldJacobianToBigAffine_snd fvMul_zero_left)
qed

lemma acc_zero_xy_init:
  "acc_zero_xy \<lparr>qx = fvNew, qy = fvNew, qz = fvNew,
                k1BytePos = 0, k1ByteNeg = 0, k2BytePos = 0, k2ByteNeg = 0\<rparr>"
  by (simp add: acc_zero_xy_def fvNew_def zero_xy_zero)



lemma ScalarMult_run_unfold:
  "ScalarMult_run F Bx By k =
     (let sp = splitK (moduloReduce k);
          k1 = fst sp; k2 = fst (snd sp); signK1 = fst (snd (snd sp)); signK2 = snd (snd (snd sp));
          fp = snd (bigAffineToField Bx By);
          x1 = fst fp; y1 = snd fp;
          pt = \<lparr>p1x = x1,
                p1y = (if signK1 = - 1 then fvNegateVal y1 1 else y1),
                p1yNeg = (if signK1 = - 1 then y1 else fvNegateVal y1 1),
                p1z = fvSetInt 1,
                p2x = fvMul2 x1 secp256k1_beta,
                p2y = (if signK2 = - 1 then fvNegateVal (fvSet y1) 1 else fvSet y1),
                p2yNeg = (if signK2 = - 1 then fvSet y1 else fvNegateVal (fvSet y1) 1),
                p2z = fvSetInt 1\<rparr>;
          m = (if length (fst (NAF k1)) < length (fst (NAF k2))
               then length (fst (NAF k2)) else length (fst (NAF k1)));
          s = fold (sm_byte F pt (fst (NAF k1)) (snd (NAF k1)) (fst (NAF k2)) (snd (NAF k2)) m)
                [0..<m]
                \<lparr>qx = fvNew, qy = fvNew, qz = fvNew,
                 k1BytePos = 0, k1ByteNeg = 0, k2BytePos = 0, k2ByteNeg = 0\<rparr>
      in (pt, s))"
  by (simp add: ScalarMult_run_def Let_def split_beta if_distrib[of fst] if_distrib[of snd])

lemma ScalarMult_eq:
  "ScalarMult F Bx By k =
     snd (fieldJacobianToBigAffine (qx (snd (ScalarMult_run F Bx By k)))
            (qy (snd (ScalarMult_run F Bx By k))) (qz (snd (ScalarMult_run F Bx By k))))"
  by (simp add: ScalarMult_def split_beta)



lemma roundDiv_0: "roundDiv 0 secp256k1_N = 0"
  by (simp add: roundDiv_def secp256k1_N_def)

lemma splitK_Nil: "splitK [] = ([], [], 0, 0)"
  by (simp add: splitK_def Let_def roundDiv_0 bigBytes_0 bigSign_def)

lemma NAF_Nil: "NAF [] = ([], [])"
  by (simp add: NAF_def)

lemma fieldJacobianToBigAffine_new:
  "snd (fieldJacobianToBigAffine fvNew fvNew fvNew) = (0, 0)"
  using fieldJacobianToBigAffine_acc_zero_xy[OF acc_zero_xy_init] by simp

lemma ScalarMult_run_zero_scalar:
  assumes "be_int k mod secp256k1_N = 0"
  shows "snd (ScalarMult_run F Bx By k) =
           \<lparr>qx = fvNew, qy = fvNew, qz = fvNew,
            k1BytePos = 0, k1ByteNeg = 0, k2BytePos = 0, k2ByteNeg = 0\<rparr>"
proof -
  have "moduloReduce k = []" using assms by (simp add: moduloReduce_def bigBytes_0)
  then show ?thesis
    unfolding ScalarMult_run_unfold
    by (simp add: Let_def splitK_Nil NAF_Nil)
qed

lemma ScalarMult_zero_scalar:
  assumes "be_int k mod secp256k1_N = 0"
  shows "ScalarMult F Bx By k = (0, 0)"
  unfolding ScalarMult_eq ScalarMult_run_zero_scalar[OF assms]
  by (simp add: fieldJacobianToBigAffine_new)

section \<open>ScalarMult on the input (0, 0) with the scalar 1, step by step\<close>














section \<open>Fixed-base and variable-base multiplication agree on multiples of N\<close>

lemma ScalarBaseMult_zero_scalar:
  assumes "be_int k mod secp256k1_N = 0"
  shows "ScalarBaseMult F tbl k = Some (0, 0)"
proof -
  have "moduloReduce k = []" using assms by (simp add: moduloReduce_def bigBytes_0)
  then show ?thesis
    by (simp add: ScalarBaseMult_def Let_def fieldJacobianToBigAffine_new)
qed

lemma base_mults_agree_on_multiples_of_N:
  assumes "be_int k mod secp256k1_N = 0"
  shows "ScalarBaseMult F tbl k = Some (ScalarMult F secp256k1_Gx secp256k1_Gy k)"
  using ScalarBaseMult_zero_scalar[OF assms] ScalarMult_zero_scalar[OF assms] by simp

section \<open>Claims about NAF\<close>

text \<open>
  Claim C2. For every byte sequence \<open>k\<close>, read as a big-endian non-negative integer, the
  two byte sequences returned by \<open>NAF\<close> reconstruct it: the sum of \<open>2 ^ t\<close> over the bit
  positions \<open>t\<close> set in the positive sequence, minus the same sum over the negative
  sequence, is exactly the integer \<open>k\<close>.
\<close>

theorem NAF_reconstructs_input:
  "bitWeight (fst (NAF k)) - bitWeight (snd (NAF k)) = be_int k"
  by (simp only: bitWeight_eq NAF_value)

text \<open>
  Claim C3. For every byte sequence \<open>k\<close>, the two byte sequences returned by \<open>NAF\<close>
  have the same length (so their bit positions line up), no bit position is set in both,
  and no two adjacent bit positions both carry a non-zero digit in either sequence.
\<close>

theorem NAF_non_adjacent_form:
  "length (fst (NAF k)) = length (snd (NAF k)) \<and>
   \<not> (bitAt (fst (NAF k)) t \<and> bitAt (snd (NAF k)) t) \<and>
   \<not> ((bitAt (fst (NAF k)) t \<or> bitAt (snd (NAF k)) t) \<and>
      (bitAt (fst (NAF k)) (Suc t) \<or> bitAt (snd (NAF k)) (Suc t)))"
proof -
  have "length (fst (NAF k)) = length (snd (NAF k))"
    using NAF_abs[of k] by blast
  then show ?thesis
    using NAF_bits[of k t] by (simp only: bit_be_int) blast
qed

section \<open>Claims about addZ1EqualsZ2\<close>

text \<open>
  Claim C5. For two Jacobian points \<open>(x1, y1, z)\<close> and \<open>(x2, y2, z)\<close> with the same
  \<open>z\<close> whose normalized x-coordinates differ, the output \<open>(x3, y3, z3)\<close> of
  \<open>addZ1EqualsZ2\<close> satisfies, as equations between residues modulo \<open>P\<close>:
  \<open>x3 = D - E - F\<close>, \<open>y3 = C * (E - x3) - y1 * (F - E)\<close> and \<open>z3 = z * A\<close>, where
  \<open>A = x2 - x1\<close>, \<open>B = A * A\<close>, \<open>C = y2 - y1\<close>, \<open>D = C * C\<close>, \<open>E = x1 * B\<close> and
  \<open>F = x2 * B\<close>.
\<close>

theorem addZ1EqualsZ2_distinct_x:
  assumes "fvNormalize x1 \<noteq> fvNormalize x2"
  shows "case addZ1EqualsZ2 fm x1 y1 z x2 y2 of (x3, y3, z3) \<Rightarrow>
           (let A = x2 - x1; B = A * A; C = y2 - y1; D = C * C; E = x1 * B; F = x2 * B
            in fvCong x3 (D - E - F) \<and>
               fvCong y3 (C * (E - x3) - y1 * (F - E)) \<and>
               fvCong z3 (z * A))"
proof -
  from addZ1EqualsZ2_formula_lemma[OF assms, where F = fm and ?y1.0 = y1 and ?z1.0 = z and ?y2.0 = y2] obtain x3 y3 z3 where
    "addZ1EqualsZ2 fm x1 y1 z x2 y2 = (x3, y3, z3)"
    "fvCong x3 ((y2 - y1) * (y2 - y1) - x1 * ((x2 - x1) * (x2 - x1)) - x2 * ((x2 - x1) * (x2 - x1)))"
    "fvCong y3 ((y2 - y1) * (x1 * ((x2 - x1) * (x2 - x1)) - x3)
                      - y1 * (x2 * ((x2 - x1) * (x2 - x1)) - x1 * ((x2 - x1) * (x2 - x1))))"
    "fvCong z3 (z * (x2 - x1))"
    by blast
  then show ?thesis by (simp only: Let_def prod.case simp_thms)
qed

theorem addZ1EqualsZ2_distinct_x_witness:
  "fvNormalize 1 \<noteq> fvNormalize 3 \<and>
   (case addZ1EqualsZ2 textbook_formulas 1 2 1 3 4 of (x3, y3, z3) \<Rightarrow>
      (let A = 3 - 1; B = A * A; C = 4 - 2; D = C * C; E = 1 * B; F = 3 * B
       in fvCong x3 (D - E - F) \<and>
          fvCong y3 (C * (E - x3) - 2 * (F - E)) \<and>
          fvCong z3 (1 * A)))"
proof -
  have h: "fvNormalize 1 \<noteq> fvNormalize 3"
    by (simp add: fvNormalize_def secp256k1_P_def)
  from h addZ1EqualsZ2_distinct_x[OF h, where fm = textbook_formulas and ?y1.0 = 2 and z = 1 and ?y2.0 = 4]
  show ?thesis
    by (rule conjI)
qed

text \<open>
  Claim C6. For two Jacobian points with the same \<open>z\<close> whose normalized x-coordinates
  are equal, \<open>addZ1EqualsZ2\<close> returns what \<open>doubleJacobian\<close> returns on the normalized
  first point when the normalized y-coordinates are equal too, and the all-zero triple
  (the point at infinity) otherwise.
\<close>

theorem addZ1EqualsZ2_equal_x:
  assumes "fvNormalize x1 = fvNormalize x2"
  shows "addZ1EqualsZ2 fm x1 y1 z x2 y2 =
           (if fvNormalize y1 = fvNormalize y2
            then doubleJacobian fm (fvNormalize x1) (fvNormalize y1) z
            else (0, 0, 0))"
  using assms by (simp add: addZ1EqualsZ2_def Let_def fvEquals_def fvSetInt_def)

theorem addZ1EqualsZ2_equal_x_witness:
  "fvNormalize 5 = fvNormalize (5 + secp256k1_P) \<and>
   addZ1EqualsZ2 textbook_formulas 5 3 1 (5 + secp256k1_P) (secp256k1_P - 3) =
     (if fvNormalize 3 = fvNormalize (secp256k1_P - 3)
      then doubleJacobian textbook_formulas (fvNormalize 5) (fvNormalize 3) 1
      else (0, 0, 0))"
proof -
  have h: "fvNormalize 5 = fvNormalize (5 + secp256k1_P)"
    by (simp add: fvNormalize_def)
  from h addZ1EqualsZ2_equal_x[OF h, where fm = textbook_formulas and ?y1.0 = 3 and z = 1
      and ?y2.0 = "secp256k1_P - 3"]
  show ?thesis
    by (rule conjI)
qed

section \<open>Claims about the public operations\<close>

text \<open>
  Claim C8. The affine pair \<open>(0, 0)\<close> is an identity of \<open>Add\<close> on both sides: for every
  pair \<open>(x, y)\<close>, \<open>Add(0, 0, x, y)\<close> and \<open>Add(x, y, 0, 0)\<close> both return \<open>(x, y)\<close>.
\<close>

theorem Add_infinity_identity:
  "Add fm 0 0 x y = (x, y) \<and> Add fm x y 0 0 = (x, y)"
proof
  show "Add fm 0 0 x y = (x, y)"
    by (simp add: Add_def bigSign_0_iff)
  show "Add fm x y 0 0 = (x, y)"
    by (cases "x = 0 \<and> y = 0") (auto simp add: Add_def bigSign_0_iff)
qed

text \<open>
  Claim C9. \<open>IsOnCurve(0, 0)\<close> is false: the pair that encodes the point at infinity
  does not satisfy \<open>y\<^sup>2 = x\<^sup>3 + 7\<close> modulo \<open>P\<close>.
\<close>

theorem IsOnCurve_rejects_infinity: "\<not> IsOnCurve 0 0"
  by (simp add: IsOnCurve_def bigAffineToField_0 fvSquareVal_def fvMul_def fvMul2_def
      fvAddInt_def fvNormalize_def fvEquals_def secp256k1_P_def)

text \<open>
  Claim C10. For every input byte sequence \<open>k\<close>, of any length, \<open>ScalarBaseMult\<close>
  never indexes the table out of bounds: \<open>moduloReduce k\<close> has at most 32 bytes, so
  \<open>diff = 32 - len(newK)\<close> is not negative, every window index \<open>diff + i\<close> lies in
  \<open>[0, 32)\<close>, every byte value lies in \<open>[0, 256)\<close>, and the call returns a point
  rather than panicking.
\<close>

theorem ScalarBaseMult_table_indices_in_bounds:
  "length (moduloReduce k) \<le> 32 \<and>
   0 \<le> int bytePoints_len - int (length (moduloReduce k)) \<and>
   (\<forall>i < length (moduloReduce k).
      0 \<le> int bytePoints_len - int (length (moduloReduce k)) + int i \<and>
      int bytePoints_len - int (length (moduloReduce k)) + int i < 32 \<and>
      unat (moduloReduce k ! i) < 256) \<and>
   (\<exists>r. ScalarBaseMult fm tbl k = Some r)"
proof -
  have l: "length (moduloReduce k) \<le> 32" by (rule moduloReduce_length)
  have u: "unat (moduloReduce k ! i) < 256" for i
    using unsigned_less[of "moduloReduce k ! i", where ?'a = nat] by simp
  show ?thesis
    using l u ScalarBaseMult_returns[of fm tbl k] by (auto simp add: bytePoints_len_def)
qed

theorem ScalarBaseMult_table_indices_in_bounds_witness:
  "(0::nat) < length (moduloReduce [1]) \<and>
   0 \<le> int bytePoints_len - int (length (moduloReduce [1])) + int 0 \<and>
   int bytePoints_len - int (length (moduloReduce [1])) + int 0 < 32 \<and>
   unat (moduloReduce [1] ! 0) < 256 \<and>
   (\<exists>r. ScalarBaseMult textbook_formulas (\<lambda>w b. (0, 0, 0)) [1] = Some r)"
proof -
  have h: "(0::nat) < length (moduloReduce [1])" by (simp add: moduloReduce_1)
  from ScalarBaseMult_table_indices_in_bounds[of "[1]" textbook_formulas "\<lambda>w b. (0, 0, 0)"] h
  show ?thesis by blast
qed

section \<open>Claims about the converter\<close>

text \<open>
  Claim C7, as the specification states it: the converter does not change caller-owned
  data; in particular \<open>fieldJacobianToBigAffine\<close> leaves its field-element arguments
  \<open>(X, Y, Z)\<close> unchanged. This fails: called on the point at infinity \<open>(0, 0, 0)\<close>,
  the accumulator \<open>ScalarMult\<close> passes for a zero scalar, it leaves \<open>Z = 1\<close> behind.
\<close>

theorem fieldJacobianToBigAffine_overwrites_point:
  "fst (fieldJacobianToBigAffine 0 0 0) \<noteq> (0, 0, 0)"
  by (simp add: fieldJacobianToBigAffine_fst)

text \<open>
  Claim C7, amended. \<open>bigAffineToField\<close> leaves its two integer arguments unchanged.
  \<open>fieldJacobianToBigAffine\<close> overwrites its three field-element arguments with the
  affine form of the point, as its source comment announces: \<open>X\<close> becomes the normalized
  \<open>X * Z\<^sup>-\<^sup>2\<close>, \<open>Y\<close> becomes the normalized \<open>Y * Z\<^sup>-\<^sup>3\<close> and \<open>Z\<close> becomes 1; the two
  integers it returns are the values of the new \<open>X\<close> and \<open>Y\<close>.
\<close>

theorem converter_frame:
  "fst (bigAffineToField ax ay) = (ax, ay) \<and>
   fst (fieldJacobianToBigAffine x y z) =
     (fvNormalize (fvMul x (fvSquareVal (fvInverse z))),
      fvNormalize (fvMul y (fvMul (fvSquareVal (fvInverse z)) (fvInverse z))),
      1) \<and>
   snd (fieldJacobianToBigAffine x y z) =
     (fvNormalize (fvMul x (fvSquareVal (fvInverse z))),
      fvNormalize (fvMul y (fvMul (fvSquareVal (fvInverse z)) (fvInverse z))))"
  by (simp add: bigAffineToField_def Let_def fieldJacobianToBigAffine_fst
      fieldJacobianToBigAffine_snd)

section \<open>Claims about ScalarMult\<close>




end
